theory Spec2Isabelle
  imports Complex_Main "HOL-Library.Word"
begin

unbundle bit_operations_syntax

section \<open>Numbers and typed arrays\<close>

text \<open>
  The stereogram generator of \<^verbatim>\<open>src/sirds.ts\<close> computes with JavaScript numbers.
  Integers (column indices, offsets, the seed) are \<open>int\<close>; the 32-bit operators of the
  source (\<^verbatim>\<open>>>> 0\<close>, \<^verbatim>\<open>Math.imul\<close>, \<^verbatim>\<open>^\<close>, \<^verbatim>\<open>|\<close>, \<^verbatim>\<open><< 2\<close>) are operations on \<open>32 word\<close>
  with their wrap-around. Fractional quantities (the separation and its half) are exact
  rationals: the rounding of IEEE doubles is not modelled. A quotient of two finite
  numbers is finite unless the divisor is zero, where JavaScript yields an infinity or
  NaN; \<open>jsnum\<close> keeps these three values apart from the finite ones.
\<close>

datatype jsnum = Finite rat | PosInf | NegInf | NaN

definition jsdiv :: "rat \<Rightarrow> rat \<Rightarrow> jsnum" where
  "jsdiv a b =
     (if b \<noteq> 0 then Finite (a / b)
      else if 0 < a then PosInf
      else if a < 0 then NegInf
      else NaN)"

text \<open>
  A typed array is a list. Reading outside the array yields \<^verbatim>\<open>undefined\<close> (\<open>None\<close>);
  writing outside the array is ignored.
\<close>

definition inb :: "'a list \<Rightarrow> int \<Rightarrow> bool" where
  "inb xs i = (0 \<le> i \<and> i < int (length xs))"

definition rd :: "'a list \<Rightarrow> int \<Rightarrow> 'a option" where
  "rd xs i = (if inb xs i then Some (xs ! nat i) else None)"

definition wr :: "'a list \<Rightarrow> int \<Rightarrow> 'a \<Rightarrow> 'a list" where
  "wr xs i v = (if inb xs i then xs[nat i := v] else xs)"

text \<open>Storing a number into a \<^verbatim>\<open>Uint8ClampedArray\<close> clamps it to a byte.\<close>

definition clamp8 :: "int \<Rightarrow> 8 word" where
  "clamp8 v = word_of_int (max 0 (min 255 v))"

text \<open>Storing \<^verbatim>\<open>undefined\<close> into a typed array stores 0.\<close>

definition or0 :: "'a::zero option \<Rightarrow> 'a" where
  "or0 v = (case v of None \<Rightarrow> 0 | Some b \<Rightarrow> b)"

text \<open>\<^verbatim>\<open>n << 2\<close>: the operand is taken modulo \<open>2^32\<close>, shifted, and read as a signed
  32-bit integer.\<close>

definition shl2 :: "int \<Rightarrow> int" where
  "shl2 n = sint (push_bit 2 (word_of_int n :: 32 word))"

section \<open>Separation\<close>

definition DEFAULT_EYESEP :: rat where
  "DEFAULT_EYESEP = 82"

definition DEFAULT_OBSDIST :: rat where
  "DEFAULT_OBSDIST = 520"

definition BKDEPTH :: rat where
  "BKDEPTH = 0"

definition separation :: "rat \<Rightarrow> rat \<Rightarrow> rat \<Rightarrow> jsnum" where
  "separation ht eyeSep obsDist =
     (let d = ht - BKDEPTH
      in if d \<le> 0 then Finite 0
         else jsdiv (d * eyeSep) (d + obsDist))"

section \<open>Seeded random stream (mulberry32)\<close>

text \<open>
  The closure returned by \<^verbatim>\<open>createSeededRandom\<close> owns one variable, \<^verbatim>\<open>state\<close>.
  \<open>createSeededRandom\<close> is its initial value and \<open>next_random\<close> is one call of the
  closure: the number returned and the new state.
\<close>

definition createSeededRandom :: "int \<Rightarrow> 32 word" where
  "createSeededRandom seed = word_of_int seed"

definition next_random :: "32 word \<Rightarrow> rat \<times> 32 word" where
  "next_random state =
     (let state' = state + 0x6d2b79f5;
          t0 = state';
          t1 = (t0 XOR drop_bit 15 t0) * (t0 OR 1);
          t2 = t1 XOR (t1 + (t1 XOR drop_bit 7 t1) * (t1 OR 61))
      in (rat_of_nat (unat (t2 XOR drop_bit 14 t2)) / 4294967296, state'))"

section \<open>Link forest of one row\<close>

text \<open>
  \<^verbatim>\<open>findRoot\<close> is a \<^verbatim>\<open>while\<close> loop with no bound: on a link buffer with a cycle it
  does not return (\<open>None\<close>). A read outside the buffer yields \<^verbatim>\<open>undefined\<close>, which
  becomes the loop variable, compares equal to itself, and is returned
  (\<open>Some None\<close>).
\<close>

partial_function (option) findRoot :: "int list \<Rightarrow> int \<Rightarrow> int option option" where
  "findRoot link i =
     (case rd link i of
        None \<Rightarrow> Some None
      | Some j \<Rightarrow> if j \<noteq> i then findRoot link j else Some (Some i))"

declare findRoot.simps [code]

text \<open>
  Lines 65 to 71 of the source: the pair \<open>(leftX, rightX)\<close> that column \<open>x\<close> links,
  or \<open>None\<close> when the column is skipped. An \<^verbatim>\<open>undefined\<close> depth sample makes the
  separation NaN, and an infinite or NaN separation fails \<^verbatim>\<open>sep < 2\<close> or
  \<^verbatim>\<open>leftX >= 0\<close>: no link in either case.
\<close>

definition linkPair ::
  "8 word list \<Rightarrow> int \<Rightarrow> int \<Rightarrow> rat \<Rightarrow> rat \<Rightarrow> int \<Rightarrow> (int \<times> int) option" where
  "linkPair depth rowOff width eyeSep obsDist x =
     (case rd depth (rowOff + x) of
        None \<Rightarrow> None
      | Some ht \<Rightarrow>
          (case separation (rat_of_nat (unat ht)) eyeSep obsDist of
             Finite sep \<Rightarrow>
               if sep < 2 then None
               else
                 let half = sep * 0.5;
                     leftX = \<lfloor>rat_of_int x - half\<rfloor>;
                     rightX = \<lfloor>rat_of_int x + half\<rfloor>
                 in if leftX \<ge> 0 \<and> rightX < width \<and> leftX \<noteq> rightX
                    then Some (leftX, rightX) else None
           | _ \<Rightarrow> None))"

text \<open>
  One iteration of the link loop on the link buffer. The boolean beside the buffer is a
  ghost flag: it becomes \<open>True\<close> when an access falls outside its array, and nothing
  reads it.
\<close>

definition linkColumn ::
  "8 word list \<Rightarrow> int \<Rightarrow> int \<Rightarrow> rat \<Rightarrow> rat \<Rightarrow> int \<Rightarrow> int list \<times> bool
     \<Rightarrow> (int list \<times> bool) option" where
  "linkColumn depth rowOff width eyeSep obsDist x s =
     (let link = fst s;
          flag = (snd s \<or> \<not> inb depth (rowOff + x))
      in case linkPair depth rowOff width eyeSep obsDist x of
           None \<Rightarrow> Some (link, flag)
         | Some (leftX, rightX) \<Rightarrow>
             (case findRoot link leftX of
                None \<Rightarrow> None
              | Some rootLeft \<Rightarrow>
                  Some (wr link rightX (or0 rootLeft),
                        flag \<or> rootLeft = None \<or> \<not> inb link rightX)))"

fun buildLinks ::
  "8 word list \<Rightarrow> int \<Rightarrow> int \<Rightarrow> rat \<Rightarrow> rat \<Rightarrow> nat list \<Rightarrow> int list \<times> bool
     \<Rightarrow> (int list \<times> bool) option" where
  "buildLinks depth rowOff width eyeSep obsDist [] s = Some s"
| "buildLinks depth rowOff width eyeSep obsDist (x # xs) s =
     (case linkColumn depth rowOff width eyeSep obsDist (int x) s of
        None \<Rightarrow> None
      | Some s' \<Rightarrow> buildLinks depth rowOff width eyeSep obsDist xs s')"

text \<open>The reset loop \<^verbatim>\<open>link[x] = x\<close>, on the link buffer and the ghost flag.\<close>

definition resetLink :: "int list \<times> bool \<Rightarrow> nat list \<Rightarrow> int list \<times> bool" where
  "resetLink s cols =
     foldl (\<lambda>s x. (wr (fst s) (int x) (int x), snd s \<or> \<not> inb (fst s) (int x))) s cols"

text \<open>The link buffer of row \<open>y\<close> when its link loop ends.\<close>

definition rowLink ::
  "8 word list \<Rightarrow> int \<Rightarrow> rat \<Rightarrow> rat \<Rightarrow> nat \<Rightarrow> nat \<Rightarrow> int list option" where
  "rowLink depth width eyeSep obsDist y k =
     map_option fst
       (buildLinks depth (int y * width) width eyeSep obsDist [0..<k]
          (resetLink (replicate (nat width) 0, False) [0..<nat width]))"

section \<open>Colouring and the whole image\<close>

record engine =
  e_link :: "int list"
  e_data :: "8 word list"
  e_state :: "32 word"
  e_oob :: bool

definition inb4 :: "'a list \<Rightarrow> int \<Rightarrow> bool" where
  "inb4 xs i = (inb xs i \<and> inb xs (i + 1) \<and> inb xs (i + 2) \<and> inb xs (i + 3))"

definition inb3 :: "'a list \<Rightarrow> int \<Rightarrow> bool" where
  "inb3 xs i = (inb xs i \<and> inb xs (i + 1) \<and> inb xs (i + 2))"

definition colorColumn :: "int \<Rightarrow> int \<Rightarrow> engine \<Rightarrow> engine" where
  "colorColumn rowOff x e =
     (let link = e_link e;
          data = e_data e;
          i = shl2 (rowOff + x)
      in if rd link x = Some x then
           (let (r, state') = next_random (e_state e);
                v = \<lfloor>r * 256\<rfloor>;
                data1 = wr data i (clamp8 v);
                data2 = wr data1 (i + 1) (clamp8 v);
                data3 = wr data2 (i + 2) (clamp8 v);
                data4 = wr data3 (i + 3) 255
            in e\<lparr>e_data := data4, e_state := state',
                 e_oob := (e_oob e \<or> \<not> inb link x \<or> \<not> inb4 data i)\<rparr>)
         else
           (let src = (case rd link x of Some l \<Rightarrow> shl2 (rowOff + l) | None \<Rightarrow> 0);
                data1 = wr data i (or0 (rd data src));
                data2 = wr data1 (i + 1) (or0 (rd data1 (src + 1)));
                data3 = wr data2 (i + 2) (or0 (rd data2 (src + 2)));
                data4 = wr data3 (i + 3) 255
            in e\<lparr>e_data := data4,
                 e_oob := (e_oob e \<or> \<not> inb link x \<or> \<not> inb4 data i \<or> \<not> inb3 data src)\<rparr>))"

definition colorRow :: "int \<Rightarrow> nat list \<Rightarrow> engine \<Rightarrow> engine" where
  "colorRow rowOff cols e = foldl (\<lambda>e x. colorColumn rowOff (int x) e) e cols"

text \<open>One iteration of the row loop: reset, link, colour.\<close>

definition sirdsRow ::
  "8 word list \<Rightarrow> int \<Rightarrow> rat \<Rightarrow> rat \<Rightarrow> nat \<Rightarrow> engine \<Rightarrow> engine option" where
  "sirdsRow depth width eyeSep obsDist y e =
     (let rowOff = int y * width;
          cols = [0..<nat width];
          s0 = resetLink (e_link e, e_oob e) cols
      in case buildLinks depth rowOff width eyeSep obsDist cols s0 of
           None \<Rightarrow> None
         | Some (link1, flag) \<Rightarrow>
             Some (colorRow rowOff cols (e\<lparr>e_link := link1, e_oob := flag\<rparr>)))"

fun sirdsRows ::
  "8 word list \<Rightarrow> int \<Rightarrow> rat \<Rightarrow> rat \<Rightarrow> nat list \<Rightarrow> engine \<Rightarrow> engine option" where
  "sirdsRows depth width eyeSep obsDist [] e = Some e"
| "sirdsRows depth width eyeSep obsDist (y # ys) e =
     (case sirdsRow depth width eyeSep obsDist y e of
        None \<Rightarrow> None
      | Some e' \<Rightarrow> sirdsRows depth width eyeSep obsDist ys e')"

text \<open>
  The call. \<^verbatim>\<open>new Int32Array(width)\<close> throws a \<^verbatim>\<open>RangeError\<close> for a negative length;
  nothing else in the function throws. The result is \<open>None\<close> when the call does not
  return, \<open>Inl\<close> when it throws, and otherwise the final state, of which the caller
  sees \<open>e_data\<close>, the contents of \<^verbatim>\<open>out.data\<close>. The optional parameters \<^verbatim>\<open>eyeSep\<close> and
  \<^verbatim>\<open>obsDist\<close> are passed explicitly.
\<close>

datatype error = RangeError

definition depthToSirds ::
  "8 word list \<Rightarrow> int \<Rightarrow> int \<Rightarrow> 8 word list \<Rightarrow> int \<Rightarrow> rat \<Rightarrow> rat
     \<Rightarrow> (error + engine) option" where
  "depthToSirds depth width height out seed eyeSep obsDist =
     (if width < 0 then Some (Inl RangeError)
      else map_option Inr
        (sirdsRows depth width eyeSep obsDist [0..<nat height]
           \<lparr>e_link = replicate (nat width) 0, e_data = out,
            e_state = createSeededRandom seed, e_oob = False\<rparr>))"

section \<open>Vocabulary of the properties\<close>

text \<open>The forest invariant of a link buffer: no entry points forward or below 0.\<close>

definition linv :: "int list \<Rightarrow> bool" where
  "linv link = (\<forall>j < length link. 0 \<le> link ! j \<and> link ! j \<le> int j)"

text \<open>
  The nodes that the loop of \<open>findRoot\<close> visits from \<open>i\<close>, in order, cut after
  \<open>n\<close> steps along the links.
\<close>

fun walk :: "int list \<Rightarrow> nat \<Rightarrow> int \<Rightarrow> int list" where
  "walk link 0 i = [i]"
| "walk link (Suc n) i =
     (case rd link i of
        None \<Rightarrow> [i]
      | Some j \<Rightarrow> if j \<noteq> i then i # walk link n j else [i])"

primrec stateAfter :: "32 word \<Rightarrow> nat \<Rightarrow> 32 word" where
  "stateAfter st 0 = st"
| "stateAfter st (Suc k) = snd (next_random (stateAfter st k))"

definition gray :: "32 word \<Rightarrow> nat \<Rightarrow> 8 word" where
  "gray st k = clamp8 \<lfloor>fst (next_random (stateAfter st k)) * 256\<rfloor>"

definition roots :: "int list \<Rightarrow> nat \<Rightarrow> nat" where
  "roots link k = length (filter (\<lambda>x. link ! x = int x) [0..<k])"

definition rootOf :: "int list \<Rightarrow> nat \<Rightarrow> nat" where
  "rootOf link x = nat (last (walk link (length link) (int x)))"

definition rgb :: "8 word list \<Rightarrow> nat \<Rightarrow> 8 word list" where
  "rgb d p = [d ! (4 * p), d ! (4 * p + 1), d ! (4 * p + 2)]"

definition alpha :: "8 word list \<Rightarrow> nat \<Rightarrow> 8 word" where
  "alpha d p = d ! (4 * p + 3)"

definition rowDone :: "int list \<Rightarrow> nat \<Rightarrow> nat \<Rightarrow> engine \<Rightarrow> engine \<Rightarrow> bool" where
  "rowDone L P k e e' =
     (e_link e' = L \<and> length (e_data e') = length (e_data e) \<and> e_oob e' = e_oob e \<and>
      e_state e' = stateAfter (e_state e) (roots L k) \<and>
      (\<forall>x < k. rgb (e_data e') (P + x) = replicate 3 (gray (e_state e) (roots L (rootOf L x))) \<and>
               alpha (e_data e') (P + x) = 255) \<and>
      (\<forall>j. j < 4 * P \<or> 4 * (P + k) \<le> j \<longrightarrow> e_data e' ! j = e_data e ! j))"

definition finalLink :: "8 word list \<Rightarrow> int \<Rightarrow> rat \<Rightarrow> rat \<Rightarrow> nat \<Rightarrow> int list" where
  "finalLink depth width eyeSep obsDist y =
     (case rowLink depth width eyeSep obsDist y (nat width) of Some L \<Rightarrow> L | None \<Rightarrow> [])"

definition rootsBefore :: "8 word list \<Rightarrow> int \<Rightarrow> rat \<Rightarrow> rat \<Rightarrow> nat \<Rightarrow> nat" where
  "rootsBefore depth width eyeSep obsDist y =
     sum_list (map (\<lambda>y'. roots (finalLink depth width eyeSep obsDist y') (nat width)) [0..<y])"

definition drawIndex :: "8 word list \<Rightarrow> int \<Rightarrow> rat \<Rightarrow> rat \<Rightarrow> nat \<Rightarrow> nat \<Rightarrow> nat" where
  "drawIndex depth width eyeSep obsDist y x =
     rootsBefore depth width eyeSep obsDist y
       + roots (finalLink depth width eyeSep obsDist y)
           (rootOf (finalLink depth width eyeSep obsDist y) x)"

definition imageDone ::
  "8 word list \<Rightarrow> nat \<Rightarrow> rat \<Rightarrow> rat \<Rightarrow> nat \<Rightarrow> engine \<Rightarrow> engine \<Rightarrow> bool" where
  "imageDone depth n eyeSep obsDist y e e' =
     (length (e_link e') = n \<and> length (e_data e') = length (e_data e) \<and>
      e_state e' = stateAfter (e_state e) (rootsBefore depth (int n) eyeSep obsDist y) \<and>
      e_oob e' = (e_oob e \<or> (\<exists>y' < y. \<exists>x < n. \<not> inb depth (int (y' * n + x)))) \<and>
      (\<forall>y' < y. \<forall>x < n.
         rgb (e_data e') (y' * n + x)
           = replicate 3 (gray (e_state e) (drawIndex depth (int n) eyeSep obsDist y' x)) \<and>
         alpha (e_data e') (y' * n + x) = 255) \<and>
      (\<forall>j. 4 * (y * n) \<le> j \<longrightarrow> e_data e' ! j = e_data e ! j))"

definition render :: "8 word list \<Rightarrow> int \<Rightarrow> int \<Rightarrow> int \<Rightarrow> rat \<Rightarrow> rat \<Rightarrow> 8 word list" where
  "render depth width height seed eyeSep obsDist =
     concat (map (\<lambda>p. replicate 3 (gray (createSeededRandom seed)
                          (drawIndex depth width eyeSep obsDist (p div nat width) (p mod nat width)))
                      @ [255])
               [0..<nat width * nat height])"

definition start :: "nat \<Rightarrow> 8 word list \<Rightarrow> int \<Rightarrow> engine" where
  "start n out seed =
     \<lparr>e_link = replicate n 0, e_data = out, e_state = createSeededRandom seed, e_oob = False\<rparr>"

definition written :: "(error + engine) option \<Rightarrow> 8 word list option" where
  "written r = (case r of Some (Inr e) \<Rightarrow> Some (e_data e) | _ \<Rightarrow> None)"

definition flagged :: "(error + engine) option \<Rightarrow> bool option" where
  "flagged r = (case r of Some (Inr e) \<Rightarrow> Some (e_oob e) | _ \<Rightarrow> None)"

definition scenarioDepth :: "8 word list" where
  "scenarioDepth = [0, 0, 0, 0, 0, 255, 0, 0, 0, 0]"

definition noise :: "int \<Rightarrow> nat \<Rightarrow> 8 word list" where
  "noise seed m =
     concat (map (\<lambda>k. replicate 3 (gray (createSeededRandom seed) k) @ [255]) [0..<m])"

section \<open>The separation function\<close>

text \<open>
  Claim C5. With \<open>d = ht - BKDEPTH\<close>, the separation is 0 whenever \<open>d \<le> 0\<close>, in
  particular at the background depth, and it is the quotient
  \<open>d * eyeSep / (d + obsDist)\<close> whenever \<open>d > 0\<close>: the JavaScript quotient in general,
  which is the rational quotient unless the divisor is zero.
\<close>

theorem separation_equations:
  "(ht - BKDEPTH \<le> 0 \<longrightarrow> separation ht eyeSep obsDist = Finite 0) \<and>
   separation BKDEPTH eyeSep obsDist = Finite 0 \<and>
   (0 < ht - BKDEPTH \<longrightarrow>
      separation ht eyeSep obsDist
        = jsdiv ((ht - BKDEPTH) * eyeSep) ((ht - BKDEPTH) + obsDist)) \<and>
   (0 < ht - BKDEPTH \<and> (ht - BKDEPTH) + obsDist \<noteq> 0 \<longrightarrow>
      separation ht eyeSep obsDist
        = Finite ((ht - BKDEPTH) * eyeSep / ((ht - BKDEPTH) + obsDist)))"
  by (simp add: separation_def jsdiv_def Let_def)

theorem separation_equations_witness:
  "separation 255 80 400 = Finite (255 * 80 / (255 + 400)) \<and> separation 0 80 400 = Finite 0"
  using separation_equations [of 255 80 400] separation_equations [of 0 80 400]
  by (simp add: BKDEPTH_def jsdiv_def)




section \<open>The link forest\<close>

lemma rd_in: "0 \<le> i \<Longrightarrow> nat i < length xs \<Longrightarrow> rd xs i = Some (xs ! nat i)"
  by (simp add: rd_def inb_def)

lemma length_wr [simp]: "length (wr xs i v) = length xs"
  by (simp add: wr_def)

lemma inb_wr [simp]: "inb (wr xs i v) j = inb xs j"
  by (simp add: inb_def)

lemma walk_hd: "hd (walk link n i) = i"
  by (cases n) (auto split: option.splits)

lemma walk_ne: "walk link n i \<noteq> []"
  by (cases n) (auto split: option.splits)

lemma walk_findRoot:
  assumes "linv link"
  shows "0 \<le> i \<Longrightarrow> nat i < length link \<Longrightarrow> nat i \<le> n \<Longrightarrow>
         findRoot link i = Some (Some (last (walk link n i))) \<and>
         0 \<le> last (walk link n i) \<and> last (walk link n i) \<le> i \<and>
         link ! nat (last (walk link n i)) = last (walk link n i) \<and>
         (\<forall>v \<in> set (tl (walk link n i)). v < i) \<and>
         distinct (walk link n i) \<and>
         length (walk link n i) \<le> nat i + 1"
proof (induction n arbitrary: i)
  case 0
  then have i0: "i = 0" by simp
  from assms 0 have "link ! 0 = 0" unfolding linv_def i0 by force
  then show ?case using 0 i0
    by (subst findRoot.simps) (simp add: rd_in)
next
  case (Suc n)
  let ?j = "link ! nat i"
  have rd: "rd link i = Some ?j" using Suc.prems by (simp add: rd_in)
  have jb: "0 \<le> ?j" "?j \<le> i" using assms Suc.prems unfolding linv_def by force+
  show ?case
  proof (cases "?j = i")
    case True
    then show ?thesis using rd Suc.prems
      by (subst findRoot.simps) simp
  next
    case False
    then have lt: "?j < i" using jb by simp
    then have pre: "0 \<le> ?j" "nat ?j < length link" "nat ?j \<le> n"
      using jb Suc.prems by simp_all
    note IH = Suc.IH [OF pre]
    have c: "walk link (Suc n) i = i # walk link n ?j" using rd False by simp
    have fr: "findRoot link i = findRoot link ?j"
      using rd False by (subst findRoot.simps) simp
    have hdj: "hd (walk link n ?j) = ?j" by (rule walk_hd)
    have ne: "walk link n ?j \<noteq> []" by (rule walk_ne)
    have all_lt: "\<forall>v \<in> set (walk link n ?j). v < i"
    proof
      fix v assume "v \<in> set (walk link n ?j)"
      then have "v = ?j \<or> v \<in> set (tl (walk link n ?j))"
        using hdj ne by (cases "walk link n ?j") auto
      then show "v < i" using IH lt by auto
    qed
    have nlt: "Suc (nat ?j) \<le> nat i" using lt jb by simp
    show ?thesis
      unfolding c fr using IH ne all_lt lt nlt by auto
  qed
qed

lemma findRoot_linv:
  assumes "linv link" "0 \<le> i" "nat i < length link"
  obtains r where "findRoot link i = Some (Some r)" "0 \<le> r" "r \<le> i" "link ! nat r = r"
  using walk_findRoot [OF assms(1) assms(2) assms(3) le_refl] by blast

lemma linkPair_bounds:
  assumes "linkPair depth rowOff width eyeSep obsDist x = Some (l, r)"
  shows "0 \<le> l \<and> l < r \<and> r < width"
proof -
  from assms obtain ht sep where
    sep: "\<not> sep < 2"
    and l: "l = \<lfloor>rat_of_int x - sep * 0.5\<rfloor>" and r: "r = \<lfloor>rat_of_int x + sep * 0.5\<rfloor>"
    and g: "l \<ge> 0 \<and> r < width \<and> l \<noteq> r"
    by (auto simp: linkPair_def Let_def split: option.splits jsnum.splits if_splits)
  have "rat_of_int x - sep * 0.5 \<le> rat_of_int x + sep * 0.5" using sep by simp
  then have "l \<le> r" unfolding l r by (rule floor_mono)
  then show ?thesis using g by simp
qed

lemma linv_wr:
  assumes "linv link" "0 \<le> v" "v \<le> r"
  shows "linv (wr link r v)"
  using assms unfolding linv_def wr_def inb_def
  by (auto simp: nth_list_update)

lemma linkColumn_linv:
  assumes "linv link" "length link = nat width"
  obtains link' b' where "linkColumn depth rowOff width eyeSep obsDist x (link, b) = Some (link', b')"
    "linv link'" "length link' = nat width"
proof (cases "linkPair depth rowOff width eyeSep obsDist x")
  case None
  then show ?thesis using assms that by (simp add: linkColumn_def)
next
  case (Some p)
  obtain l r where p: "p = (l, r)" by (cases p)
  from linkPair_bounds [OF Some [unfolded p]] have b: "0 \<le> l" "l < r" "r < width" by simp_all
  then have "nat l < length link" using assms by simp
  from findRoot_linv [OF assms(1) b(1) this] obtain rt where
    rt: "findRoot link l = Some (Some rt)" "0 \<le> rt" "rt \<le> l" "link ! nat rt = rt" .
  have "linv (wr link r rt)" using assms(1) rt b by (intro linv_wr) simp_all
  then show ?thesis using that Some p rt assms
    by (simp add: linkColumn_def or0_def)
qed

lemma buildLinks_linv:
  assumes "linv link" "length link = nat width"
  obtains link' b' where "buildLinks depth rowOff width eyeSep obsDist cols (link, b) = Some (link', b')"
    "linv link'" "length link' = nat width"
  using assms
proof (induction cols arbitrary: link b thesis)
  case Nil
  then show ?case by simp
next
  case (Cons x xs)
  from linkColumn_linv [OF Cons.prems(2,3)] obtain l1 b1 where
    s: "linkColumn depth rowOff width eyeSep obsDist (int x) (link, b) = Some (l1, b1)"
       "linv l1" "length l1 = nat width" by metis
  show ?case
    by (rule Cons.IH [OF _ s(2,3)]) (rule Cons.prems(1), simp_all add: s)
qed


lemma resetLink_upt:
  "k \<le> length link \<Longrightarrow>
     resetLink (link, b) [0..<k] = (map int [0..<k] @ drop k link, b)"
proof (induction k)
  case 0
  then show ?case by (simp add: resetLink_def)
next
  case (Suc k)
  then have IH: "resetLink (link, b) [0..<k] = (map int [0..<k] @ drop k link, b)" by simp
  have "resetLink (link, b) [0..<Suc k] =
      (wr (fst (resetLink (link, b) [0..<k])) (int k) (int k),
       snd (resetLink (link, b) [0..<k]) \<or> \<not> inb (fst (resetLink (link, b) [0..<k])) (int k))"
    by (simp add: resetLink_def)
  also have "\<dots> = ((map int [0..<k] @ drop k link)[k := int k], b)"
    using Suc.prems by (simp add: IH wr_def inb_def)
  also have "(map int [0..<k] @ drop k link)[k := int k]
      = map int [0..<k] @ (drop k link)[0 := int k]"
    by (simp add: list_update_append)
  also have "(drop k link)[0 := int k] = int k # drop (Suc k) link"
    using Suc.prems by (simp add: Cons_nth_drop_Suc [symmetric])
  finally show ?case by simp
qed

lemma resetLink_full:
  "length link = n \<Longrightarrow> resetLink (link, b) [0..<n] = (map int [0..<n], b)"
  by (simp add: resetLink_upt)

lemma linv_id: "linv (map int [0..<n])"
  by (simp add: linv_def)

lemma rowLink_linv:
  obtains L where "rowLink depth width eyeSep obsDist y k = Some L" "linv L" "length L = nat width"
proof -
  have r: "resetLink (replicate (nat width) 0, False) [0..<nat width]
      = (map int [0..<nat width], False)"
    by (rule resetLink_full) simp
  have "linv (map int [0..<nat width])" "length (map int [0..<nat width]) = nat width"
    by (simp_all add: linv_id)
  from buildLinks_linv [OF this] obtain L b where
    "buildLinks depth (int y * width) width eyeSep obsDist [0..<k] (map int [0..<nat width], False)
       = Some (L, b)" "linv L" "length L = nat width"
    by metis
  then show ?thesis using that r by (simp add: rowLink_def)
qed




lemma floor_rat_div_numeral:
  "\<lfloor>(numeral a :: rat) / numeral b\<rfloor> = numeral a div numeral b"
  using floor_divide_of_int_eq [of "numeral a" "numeral b", where ?'a = rat] by simp

lemma shl2_small:
  assumes "0 \<le> n" "n < 536870912"
  shows "shl2 n = 4 * n"
proof -
  have a: "push_bit 2 (word_of_int n :: 32 word) = word_of_int (4 * n)"
    by (simp add: push_bit_eq_mult)
  have c: "signed_take_bit 31 (4 * n) = 4 * n"
    by (rule signed_take_bit_int_eq_self) (use assms in simp_all)
  show ?thesis unfolding shl2_def a sint_sbintrunc' using c by simp
qed

lemma shl2_nat:
  assumes "4 * p < 2147483648"
  shows "shl2 (int p) = int (4 * p)"
  using shl2_small [of "int p"] assms by simp

lemma rd_nat: "a < length xs \<Longrightarrow> rd xs (int a) = Some (xs ! a)"
  by (simp add: rd_def inb_def)

lemma wr_nat: "a < length xs \<Longrightarrow> wr xs (int a) v = xs[a := v]"
  by (simp add: wr_def inb_def)

lemma inb_nat: "inb xs (int a) = (a < length xs)"
  by (simp add: inb_def)

lemma inb_nat_plus:
  "inb xs (int a + 1) = (a + 1 < length xs)"
  "inb xs (int a + 2) = (a + 2 < length xs)"
  "inb xs (int a + 3) = (a + 3 < length xs)"
  by (auto simp: inb_def)

lemma wr_nat_plus:
  "a + 1 < length xs \<Longrightarrow> wr xs (int a + 1) v = xs[a + 1 := v]"
  "a + 2 < length xs \<Longrightarrow> wr xs (int a + 2) v = xs[a + 2 := v]"
  "a + 3 < length xs \<Longrightarrow> wr xs (int a + 3) v = xs[a + 3 := v]"
  by (simp_all add: wr_def inb_def nat_add_distrib)

lemma rd_nat_plus:
  "a + 1 < length xs \<Longrightarrow> rd xs (int a + 1) = Some (xs ! (a + 1))"
  "a + 2 < length xs \<Longrightarrow> rd xs (int a + 2) = Some (xs ! (a + 2))"
  by (simp_all add: rd_def inb_def nat_add_distrib)

lemma colorColumn_root:
  assumes "rd (e_link e) x = Some x" and "shl2 (rowOff + x) = int a"
    and "a + 3 < length (e_data e)"
  shows "colorColumn rowOff x e =
    e\<lparr>e_data := (e_data e)[a := clamp8 \<lfloor>fst (next_random (e_state e)) * 256\<rfloor>,
                  a + 1 := clamp8 \<lfloor>fst (next_random (e_state e)) * 256\<rfloor>,
                  a + 2 := clamp8 \<lfloor>fst (next_random (e_state e)) * 256\<rfloor>,
                  a + 3 := 255],
      e_state := snd (next_random (e_state e)),
      e_oob := e_oob e\<rparr>"
proof -
  have l: "inb (e_link e) x" using assms(1) by (simp add: rd_def split: if_splits)
  have b: "a < length (e_data e)" "a + 1 < length (e_data e)" "a + 2 < length (e_data e)"
    using assms(3) by simp_all
  show ?thesis
    unfolding colorColumn_def Let_def
    using assms l b
    by (simp add: wr_nat wr_nat_plus inb_nat inb_nat_plus inb4_def split_beta)
qed

lemma colorColumn_copy:
  assumes "rd (e_link e) x = Some l" and "l \<noteq> x"
    and "shl2 (rowOff + x) = int a" and "shl2 (rowOff + l) = int b"
    and "b + 3 < a" and "a + 3 < length (e_data e)"
  shows "colorColumn rowOff x e =
    e\<lparr>e_data := (e_data e)[a := e_data e ! b,
                  a + 1 := e_data e ! (b + 1),
                  a + 2 := e_data e ! (b + 2),
                  a + 3 := 255],
      e_oob := e_oob e\<rparr>"
proof -
  have l: "inb (e_link e) x" using assms(1) by (simp add: rd_def split: if_splits)
  have c: "a < length (e_data e)" "a + 1 < length (e_data e)" "a + 2 < length (e_data e)"
    "b < length (e_data e)" "b + 1 < length (e_data e)" "b + 2 < length (e_data e)"
    "b + 1 \<noteq> a" "b + 2 \<noteq> a" "b + 2 \<noteq> a + 1"
    using assms(5,6) by simp_all
  show ?thesis
    unfolding colorColumn_def Let_def
    using assms l c
    by (simp add: wr_nat wr_nat_plus rd_nat rd_nat_plus inb_nat inb_nat_plus
        inb4_def inb3_def or0_def)
qed

lemma rootOf_findRoot:
  assumes "linv L" "x < length L"
  shows "findRoot L (int x) = Some (Some (int (rootOf L x)))" and "rootOf L x \<le> x"
    and "L ! rootOf L x = int (rootOf L x)"
proof -
  have a: "0 \<le> int x" "nat (int x) < length L" "nat (int x) \<le> length L"
    using assms by simp_all
  note c = walk_findRoot [OF assms(1) a]
  show "findRoot L (int x) = Some (Some (int (rootOf L x)))"
    using c by (simp add: rootOf_def)
  show "rootOf L x \<le> x" using c by (simp add: rootOf_def nat_le_iff)
  show "L ! rootOf L x = int (rootOf L x)" using c by (simp add: rootOf_def)
qed

lemma rootOf_root:
  assumes "linv L" "x < length L" "L ! x = int x"
  shows "rootOf L x = x"
proof -
  have "findRoot L (int x) = Some (Some (int x))"
    using assms by (subst findRoot.simps) (simp add: rd_nat)
  with rootOf_findRoot(1) [OF assms(1,2)] show ?thesis by simp
qed

lemma rootOf_step:
  assumes "linv L" "x < length L" "L ! x \<noteq> int x"
  shows "rootOf L x = rootOf L (nat (L ! x))" and "0 \<le> L ! x" and "L ! x < int x"
proof -
  have b: "0 \<le> L ! x" "L ! x \<le> int x" using assms by (simp_all add: linv_def)
  then show "0 \<le> L ! x" "L ! x < int x" using assms(3) by simp_all
  then have l: "nat (L ! x) < length L" using assms(2) by simp
  have "findRoot L (int x) = findRoot L (L ! x)"
    using assms by (subst findRoot.simps) (simp add: rd_nat)
  with rootOf_findRoot(1) [OF assms(1,2)] rootOf_findRoot(1) [OF assms(1) l] b
  show "rootOf L x = rootOf L (nat (L ! x))" by simp
qed

lemma roots_Suc:
  "roots L (Suc k) = (if L ! k = int k then Suc (roots L k) else roots L k)"
  by (simp add: roots_def)

lemma roots_mono: "j \<le> k \<Longrightarrow> roots L j \<le> roots L k"
  by (induction k) (auto simp: roots_Suc le_Suc_eq)

lemma upd4:
  fixes va vb vc vd :: 'a
  assumes "a + 3 < length d"
  shows "length (d[a := va, a + 1 := vb, a + 2 := vc, a + 3 := vd]) = length d"
    and "d[a := va, a + 1 := vb, a + 2 := vc, a + 3 := vd] ! a = va"
    and "d[a := va, a + 1 := vb, a + 2 := vc, a + 3 := vd] ! (a + 1) = vb"
    and "d[a := va, a + 1 := vb, a + 2 := vc, a + 3 := vd] ! (a + 2) = vc"
    and "d[a := va, a + 1 := vb, a + 2 := vc, a + 3 := vd] ! (a + 3) = vd"
    and "\<And>j. j < a \<or> a + 4 \<le> j \<Longrightarrow>
           d[a := va, a + 1 := vb, a + 2 := vc, a + 3 := vd] ! j = d ! j"
  using assms by (auto simp: nth_list_update)

lemma colorRow_snoc:
  "colorRow rowOff [0..<Suc k] e = colorColumn rowOff (int k) (colorRow rowOff [0..<k] e)"
  by (simp add: colorRow_def)

lemma colorRow_prefix:
  assumes L: "linv L" "length L = n" "e_link e = L"
    and len: "4 * (P + n) \<le> length (e_data e)" and small: "4 * (P + n) < 2147483648"
  shows "k \<le> n \<Longrightarrow> rowDone L P k e (colorRow (int P) [0..<k] e)"
proof (induction k)
  case 0
  show ?case using L by (simp add: rowDone_def colorRow_def roots_def)
next
  case (Suc k)
  let ?e1 = "colorRow (int P) [0..<k] e"
  let ?e2 = "colorColumn (int P) (int k) ?e1"
  let ?a = "4 * (P + k)"
  from Suc have kn: "k < n" and IH: "rowDone L P k e ?e1" by simp_all
  have lnk: "e_link ?e1 = L" and ln1: "length (e_data ?e1) = length (e_data e)"
    and oob1: "e_oob ?e1 = e_oob e"
    and st1: "e_state ?e1 = stateAfter (e_state e) (roots L k)"
    and px1: "\<And>x. x < k \<Longrightarrow>
        rgb (e_data ?e1) (P + x) = replicate 3 (gray (e_state e) (roots L (rootOf L x))) \<and>
        alpha (e_data ?e1) (P + x) = 255"
    and fr1: "\<And>j. j < 4 * P \<or> 4 * (P + k) \<le> j \<Longrightarrow> e_data ?e1 ! j = e_data e ! j"
    using IH unfolding rowDone_def by blast+
  have kL: "k < length L" using kn L by simp
  have rdk: "rd (e_link ?e1) (int k) = Some (L ! k)" using kL lnk by (simp add: rd_nat)
  have sh: "shl2 (int P + int k) = int ?a"
    using shl2_nat [of "P + k"] small kn by simp
  have inr: "?a + 3 < length (e_data ?e1)" using len kn ln1 by simp
  have snoc: "colorRow (int P) [0..<Suc k] e = ?e2" by (rule colorRow_snoc)
  show ?case
  proof (cases "L ! k = int k")
    case True
    let ?g = "clamp8 \<lfloor>fst (next_random (e_state ?e1)) * 256\<rfloor>"
    have g: "?g = gray (e_state e) (roots L k)" by (simp add: gray_def st1)
    have e2: "?e2 = ?e1\<lparr>e_data := (e_data ?e1)[?a := ?g, ?a + 1 := ?g, ?a + 2 := ?g, ?a + 3 := 255],
        e_state := snd (next_random (e_state ?e1)), e_oob := e_oob ?e1\<rparr>"
      using rdk True by (intro colorColumn_root sh inr) simp
    note u = upd4 [OF inr, where va = ?g and vb = ?g and vc = ?g and vd = 255]
    have d2: "e_data ?e2 = (e_data ?e1)[?a := ?g, ?a + 1 := ?g, ?a + 2 := ?g, ?a + 3 := 255]"
      by (simp add: e2)
    have rk: "rootOf L k = k" using L(1) kL True by (rule rootOf_root)
    have pix: "rgb (e_data ?e2) (P + x) = replicate 3 (gray (e_state e) (roots L (rootOf L x))) \<and>
               alpha (e_data ?e2) (P + x) = 255" if "x < Suc k" for x
    proof (cases "x = k")
      case True
      show ?thesis unfolding True d2 rgb_def alpha_def using u(2-5) g rk
        by (simp add: numeral_3_eq_3)
    next
      case False
      then have xk: "x < k" using that by simp
      then have "4 * (P + x) + 3 < ?a" by simp
      then show ?thesis using px1 [OF xk] u(6) unfolding d2 rgb_def alpha_def by simp
    qed
    have fr: "e_data ?e2 ! j = e_data e ! j" if "j < 4 * P \<or> 4 * (P + Suc k) \<le> j" for j
    proof -
      have "j < ?a \<or> ?a + 4 \<le> j" using that by auto
      then have "e_data ?e2 ! j = e_data ?e1 ! j" unfolding d2 by (rule u(6))
      also have "\<dots> = e_data e ! j" using that by (intro fr1) auto
      finally show ?thesis .
    qed
    have "e_link ?e2 = L" "length (e_data ?e2) = length (e_data e)" "e_oob ?e2 = e_oob e"
      "e_state ?e2 = stateAfter (e_state e) (roots L (Suc k))"
      using lnk ln1 oob1 st1 True u(1) by (simp_all add: e2 roots_Suc)
    then show ?thesis unfolding snoc rowDone_def using pix fr by blast
  next
    case False
    from rootOf_step [OF L(1) kL False]
    have rs: "rootOf L k = rootOf L (nat (L ! k))" and lb: "0 \<le> L ! k" "L ! k < int k" .
    let ?l = "nat (L ! k)"
    let ?b = "4 * (P + ?l)"
    have lk: "?l < k" using lb by simp
    have shl: "shl2 (int P + L ! k) = int ?b"
      using shl2_nat [of "P + ?l"] small kn lk lb by simp
    have ba: "?b + 3 < ?a" using lk by simp
    have e2: "?e2 = ?e1\<lparr>e_data := (e_data ?e1)[?a := e_data ?e1 ! ?b,
        ?a + 1 := e_data ?e1 ! (?b + 1), ?a + 2 := e_data ?e1 ! (?b + 2), ?a + 3 := 255],
        e_oob := e_oob ?e1\<rparr>"
      using rdk False by (intro colorColumn_copy [OF _ _ sh shl ba inr]) simp_all
    note u = upd4 [OF inr, where va = "e_data ?e1 ! ?b" and vb = "e_data ?e1 ! (?b + 1)"
        and vc = "e_data ?e1 ! (?b + 2)" and vd = 255]
    have d2: "e_data ?e2 = (e_data ?e1)[?a := e_data ?e1 ! ?b,
        ?a + 1 := e_data ?e1 ! (?b + 1), ?a + 2 := e_data ?e1 ! (?b + 2), ?a + 3 := 255]"
      by (simp add: e2)
    have pix: "rgb (e_data ?e2) (P + x) = replicate 3 (gray (e_state e) (roots L (rootOf L x))) \<and>
               alpha (e_data ?e2) (P + x) = 255" if "x < Suc k" for x
    proof (cases "x = k")
      case True
      have "rgb (e_data ?e2) (P + k) = rgb (e_data ?e1) (P + ?l)"
        unfolding d2 rgb_def using u(2-4) by simp
      moreover have "alpha (e_data ?e2) (P + k) = 255"
        unfolding d2 alpha_def using u(5) by simp
      ultimately show ?thesis unfolding True using px1 [OF lk] rs by simp
    next
      case False
      then have xk: "x < k" using that by simp
      then have "4 * (P + x) + 3 < ?a" by simp
      then show ?thesis using px1 [OF xk] u(6) unfolding d2 rgb_def alpha_def by simp
    qed
    have fr: "e_data ?e2 ! j = e_data e ! j" if "j < 4 * P \<or> 4 * (P + Suc k) \<le> j" for j
    proof -
      have "j < ?a \<or> ?a + 4 \<le> j" using that by auto
      then have "e_data ?e2 ! j = e_data ?e1 ! j" unfolding d2 by (rule u(6))
      also have "\<dots> = e_data e ! j" using that by (intro fr1) auto
      finally show ?thesis .
    qed
    have "e_link ?e2 = L" "length (e_data ?e2) = length (e_data e)" "e_oob ?e2 = e_oob e"
      "e_state ?e2 = stateAfter (e_state e) (roots L (Suc k))"
      using lnk ln1 oob1 st1 False u(1) by (simp_all add: e2 roots_Suc)
    then show ?thesis unfolding snoc rowDone_def using pix fr by blast
  qed
qed

lemma linkColumn_flag:
  assumes "linv L" "length L = nat width"
  shows "\<exists>L1. linv L1 \<and> length L1 = nat width \<and>
    (\<forall>b. linkColumn depth rowOff width eyeSep obsDist x (L, b)
           = Some (L1, b \<or> \<not> inb depth (rowOff + x)))"
proof (cases "linkPair depth rowOff width eyeSep obsDist x")
  case None
  then have "\<forall>b. linkColumn depth rowOff width eyeSep obsDist x (L, b)
           = Some (L, b \<or> \<not> inb depth (rowOff + x))"
    by (simp add: linkColumn_def)
  then show ?thesis using assms by blast
next
  case (Some p)
  obtain l r where p: "p = (l, r)" by (cases p)
  from linkPair_bounds [OF Some [unfolded p]] have b: "0 \<le> l" "l < r" "r < width" by simp_all
  then have "nat l < length L" using assms by simp
  from findRoot_linv [OF assms(1) b(1) this] obtain rt where
    rt: "findRoot L l = Some (Some rt)" "0 \<le> rt" "rt \<le> l" "L ! nat rt = rt" .
  have i: "inb L r" using b assms(2) by (simp add: inb_def)
  have "linv (wr L r rt)" using assms(1) rt(2) b(2) rt(3) by (intro linv_wr) simp_all
  moreover have "length (wr L r rt) = nat width" using assms(2) by simp
  moreover have "\<forall>b. linkColumn depth rowOff width eyeSep obsDist x (L, b)
           = Some (wr L r rt, b \<or> \<not> inb depth (rowOff + x))"
    using Some p rt(1) i by (simp add: linkColumn_def or0_def)
  ultimately show ?thesis by blast
qed

lemma buildLinks_flag:
  assumes "linv L" "length L = nat width"
  shows "\<exists>L'. linv L' \<and> length L' = nat width \<and>
    (\<forall>b. buildLinks depth rowOff width eyeSep obsDist cols (L, b)
           = Some (L', b \<or> (\<exists>x \<in> set cols. \<not> inb depth (rowOff + int x))))"
  using assms
proof (induction cols arbitrary: L)
  case Nil
  then show ?case by simp
next
  case (Cons x xs)
  from linkColumn_flag [OF Cons.prems] obtain L1 where
    L1: "linv L1 \<and> length L1 = nat width \<and>
    (\<forall>b. linkColumn depth rowOff width eyeSep obsDist (int x) (L, b)
           = Some (L1, b \<or> \<not> inb depth (rowOff + int x)))" ..
  then have L1a: "linv L1" and L1b: "length L1 = nat width" by simp_all
  from Cons.IH [OF L1a L1b] obtain L' where
    L': "linv L' \<and> length L' = nat width \<and>
    (\<forall>b. buildLinks depth rowOff width eyeSep obsDist xs (L1, b)
           = Some (L', b \<or> (\<exists>x \<in> set xs. \<not> inb depth (rowOff + int x))))" ..
  have "\<forall>b. buildLinks depth rowOff width eyeSep obsDist (x # xs) (L, b)
           = Some (L', b \<or> (\<exists>x \<in> set (x # xs). \<not> inb depth (rowOff + int x)))"
    using L1 L' by simp
  then show ?case using L' by blast
qed

lemma finalLink_props:
  shows "linv (finalLink depth width eyeSep obsDist y)"
    and "length (finalLink depth width eyeSep obsDist y) = nat width"
    and "rowLink depth width eyeSep obsDist y (nat width)
           = Some (finalLink depth width eyeSep obsDist y)"
proof -
  from rowLink_linv [of depth width eyeSep obsDist y "nat width"] obtain L where
    L: "rowLink depth width eyeSep obsDist y (nat width) = Some L" "linv L" "length L = nat width" .
  have f: "finalLink depth width eyeSep obsDist y = L" by (simp add: finalLink_def L(1))
  show "linv (finalLink depth width eyeSep obsDist y)"
    and "length (finalLink depth width eyeSep obsDist y) = nat width"
    and "rowLink depth width eyeSep obsDist y (nat width)
           = Some (finalLink depth width eyeSep obsDist y)"
    unfolding f using L by simp_all
qed

lemma sirdsRow_done:
  assumes w: "width = int n" and ll: "length (e_link e) = n"
    and len: "4 * (y * n + n) \<le> length (e_data e)" and small: "4 * (y * n + n) < 2147483648"
  shows "\<exists>e'. sirdsRow depth width eyeSep obsDist y e = Some e' \<and>
     rowDone (finalLink depth width eyeSep obsDist y) (y * n) n
       (e\<lparr>e_link := finalLink depth width eyeSep obsDist y,
          e_oob := (e_oob e \<or> (\<exists>x < n. \<not> inb depth (int (y * n + x))))\<rparr>) e'"
proof -
  let ?rowOff = "int y * width"
  have n: "nat width = n" using w by simp
  have ro: "?rowOff = int (y * n)" using w by simp
  have r: "resetLink (e_link e, e_oob e) [0..<n] = (map int [0..<n], e_oob e)"
    using ll by (intro resetLink_full) simp
  have id: "linv (map int [0..<n])" "length (map int [0..<n]) = nat width"
    by (simp_all add: linv_id n)
  from buildLinks_flag [OF id] obtain L where
    LL: "linv L \<and> length L = nat width \<and>
    (\<forall>b. buildLinks depth (int (y * n)) width eyeSep obsDist [0..<n] (map int [0..<n], b)
           = Some (L, b \<or> (\<exists>x \<in> set [0..<n]. \<not> inb depth (int (y * n) + int x))))" ..
  then have L: "linv L" "length L = nat width"
    "\<And>b. buildLinks depth (int (y * n)) width eyeSep obsDist [0..<n] (map int [0..<n], b)
           = Some (L, b \<or> (\<exists>x \<in> set [0..<n]. \<not> inb depth (int (y * n) + int x)))"
    by simp_all
  have r0: "resetLink (replicate n 0, False) [0..<n] = (map int [0..<n], False)"
    by (rule resetLink_full) simp
  have fl: "finalLink depth width eyeSep obsDist y = L"
    unfolding finalLink_def rowLink_def n ro r0 L(3) by simp
  have fg: "(\<exists>x \<in> set [0..<n]. \<not> inb depth (int (y * n) + int x))
            = (\<exists>x < n. \<not> inb depth (int (y * n + x)))"
    by auto
  let ?e0 = "e\<lparr>e_link := L, e_oob := (e_oob e \<or> (\<exists>x < n. \<not> inb depth (int (y * n + x))))\<rparr>"
  have sr: "sirdsRow depth width eyeSep obsDist y e = Some (colorRow (int (y * n)) [0..<n] ?e0)"
    unfolding sirdsRow_def Let_def n ro r L(3) fg by simp
  have "rowDone L (y * n) n ?e0 (colorRow (int (y * n)) [0..<n] ?e0)"
  proof (rule colorRow_prefix [OF L(1)])
    show "length L = n" using L(2) n by simp
    show "e_link ?e0 = L" by simp
    show "4 * (y * n + n) \<le> length (e_data ?e0)" using len by simp
    show "4 * (y * n + n) < 2147483648" by (rule small)
    show "n \<le> n" by simp
  qed
  then show ?thesis unfolding sr fl by blast
qed

lemma sirdsRows_snoc:
  "sirdsRows depth width eyeSep obsDist (ys @ [y]) e =
     (case sirdsRows depth width eyeSep obsDist ys e of
        None \<Rightarrow> None
      | Some e' \<Rightarrow> sirdsRow depth width eyeSep obsDist y e')"
  by (induction ys arbitrary: e) (auto split: option.splits)

lemma stateAfter_add: "stateAfter (stateAfter st a) b = stateAfter st (a + b)"
  by (induction b) simp_all

lemma gray_add: "gray (stateAfter st a) b = gray st (a + b)"
  by (simp add: gray_def stateAfter_add)

lemma rootsBefore_Suc:
  "rootsBefore depth width eyeSep obsDist (Suc y) =
     rootsBefore depth width eyeSep obsDist y
       + roots (finalLink depth width eyeSep obsDist y) (nat width)"
  by (simp add: rootsBefore_def)

lemma row_bound: "y < h \<Longrightarrow> y * n + n \<le> n * (h::nat)"
proof -
  assume "y < h"
  then have "Suc y * n \<le> h * n" by (intro mult_le_mono1) simp
  then show ?thesis by (simp add: mult.commute)
qed

lemma sirdsRows_done:
  assumes ll: "length (e_link e) = n"
    and len: "4 * (n * h) \<le> length (e_data e)" and small: "4 * (n * h) < 2147483648"
  shows "y \<le> h \<Longrightarrow> \<exists>e'. sirdsRows depth (int n) eyeSep obsDist [0..<y] e = Some e' \<and>
            imageDone depth n eyeSep obsDist y e e'"
proof (induction y)
  case 0
  show ?case using ll by (simp add: imageDone_def rootsBefore_def)
next
  case (Suc y)
  let ?L = "finalLink depth (int n) eyeSep obsDist y"
  from Suc obtain e1 where
    e1: "sirdsRows depth (int n) eyeSep obsDist [0..<y] e = Some e1"
    and d1: "imageDone depth n eyeSep obsDist y e e1" by auto
  have l1: "length (e_link e1) = n" and ld1: "length (e_data e1) = length (e_data e)"
    and st1: "e_state e1 = stateAfter (e_state e) (rootsBefore depth (int n) eyeSep obsDist y)"
    and ob1: "e_oob e1 = (e_oob e \<or> (\<exists>y' < y. \<exists>x < n. \<not> inb depth (int (y' * n + x))))"
    and px1: "\<And>y' x. y' < y \<Longrightarrow> x < n \<Longrightarrow>
         rgb (e_data e1) (y' * n + x)
           = replicate 3 (gray (e_state e) (drawIndex depth (int n) eyeSep obsDist y' x)) \<and>
         alpha (e_data e1) (y' * n + x) = 255"
    and fr1: "\<And>j. 4 * (y * n) \<le> j \<Longrightarrow> e_data e1 ! j = e_data e ! j"
    using d1 unfolding imageDone_def by blast+
  have yh: "y < h" using Suc.prems by simp
  from row_bound [OF yh] have rb: "y * n + n \<le> n * h" .
  have "4 * (y * n + n) \<le> 4 * (n * h)" using rb by simp
  then have b: "4 * (y * n + n) \<le> length (e_data e1)" "4 * (y * n + n) < 2147483648"
    using len small ld1 by linarith+
  from sirdsRow_done [OF refl l1 b] obtain e2 where
    e2: "sirdsRow depth (int n) eyeSep obsDist y e1 = Some e2"
    and r: "rowDone ?L (y * n) n
       (e1\<lparr>e_link := ?L, e_oob := (e_oob e1 \<or> (\<exists>x < n. \<not> inb depth (int (y * n + x))))\<rparr>) e2"
    by blast
  have l2: "e_link e2 = ?L" and ld2: "length (e_data e2) = length (e_data e1)"
    and ob2: "e_oob e2 = (e_oob e1 \<or> (\<exists>x < n. \<not> inb depth (int (y * n + x))))"
    and st2: "e_state e2 = stateAfter (e_state e1) (roots ?L n)"
    and px2: "\<And>x. x < n \<Longrightarrow>
        rgb (e_data e2) (y * n + x) = replicate 3 (gray (e_state e1) (roots ?L (rootOf ?L x))) \<and>
        alpha (e_data e2) (y * n + x) = 255"
    and fr2: "\<And>j. j < 4 * (y * n) \<or> 4 * (y * n + n) \<le> j \<Longrightarrow> e_data e2 ! j = e_data e1 ! j"
    using r unfolding rowDone_def by auto
  have run: "sirdsRows depth (int n) eyeSep obsDist [0..<Suc y] e = Some e2"
    by (simp add: sirdsRows_snoc e1 e2)
  have c1: "length (e_link e2) = n" using l2 finalLink_props(2) [of depth "int n" eyeSep obsDist y] by simp
  have c2: "length (e_data e2) = length (e_data e)" using ld2 ld1 by simp
  have c3: "e_state e2 = stateAfter (e_state e) (rootsBefore depth (int n) eyeSep obsDist (Suc y))"
    unfolding st2 st1 stateAfter_add rootsBefore_Suc by simp
  have c4: "e_oob e2 = (e_oob e \<or> (\<exists>y' < Suc y. \<exists>x < n. \<not> inb depth (int (y' * n + x))))"
    unfolding ob2 ob1 by (auto simp: less_Suc_eq)
  have c5: "rgb (e_data e2) (y' * n + x)
           = replicate 3 (gray (e_state e) (drawIndex depth (int n) eyeSep obsDist y' x)) \<and>
         alpha (e_data e2) (y' * n + x) = 255" if "y' < Suc y" "x < n" for y' x
  proof (cases "y' = y")
    case True
    show ?thesis using px2 [OF that(2)] unfolding True st1 gray_add drawIndex_def by simp
  next
    case False
    then have lt: "y' < y" using that by simp
    from row_bound [OF lt] have "y' * n + n \<le> n * y" .
    then have "4 * (y' * n + x) + 3 < 4 * (y * n)" using that(2) by (simp add: mult.commute)
    then have same: "e_data e2 ! (4 * (y' * n + x) + c) = e_data e1 ! (4 * (y' * n + x) + c)"
      if "c \<le> 3" for c
      using that by (intro fr2) simp
    have "rgb (e_data e2) (y' * n + x) = rgb (e_data e1) (y' * n + x)"
      "alpha (e_data e2) (y' * n + x) = alpha (e_data e1) (y' * n + x)"
      using same [of 0] same [of 1] same [of 2] same [of 3] by (simp_all add: rgb_def alpha_def)
    then show ?thesis using px1 [OF lt that(2)] by simp
  qed
  have c6: "e_data e2 ! j = e_data e ! j" if "4 * (Suc y * n) \<le> j" for j
  proof -
    have "e_data e2 ! j = e_data e1 ! j" using that by (intro fr2) simp
    also have "\<dots> = e_data e ! j" using that by (intro fr1) simp
    finally show ?thesis .
  qed
  have "imageDone depth n eyeSep obsDist (Suc y) e e2"
    unfolding imageDone_def using c1 c2 c3 c4 c5 c6 by blast
  then show ?case using run by blast
qed

lemma depthToSirds_done:
  assumes "4 * (n * nat height) \<le> length out" and "4 * (n * nat height) < 2147483648"
  shows "\<exists>e. depthToSirds depth (int n) height out seed eyeSep obsDist = Some (Inr e) \<and>
             imageDone depth n eyeSep obsDist (nat height) (start n out seed) e"
proof -
  have "\<exists>e'. sirdsRows depth (int n) eyeSep obsDist [0..<nat height] (start n out seed) = Some e' \<and>
            imageDone depth n eyeSep obsDist (nat height) (start n out seed) e'"
    by (rule sirdsRows_done [where h = "nat height"]) (use assms in \<open>simp_all add: start_def\<close>)
  then show ?thesis by (auto simp: depthToSirds_def start_def)
qed

lemma take4:
  assumes "4 * M + 4 \<le> length d"
  shows "take (4 * Suc M) d = take (4 * M) d @ [d ! (4 * M), d ! (4 * M + 1), d ! (4 * M + 2), d ! (4 * M + 3)]"
proof -
  have e: "4 * Suc M = Suc (Suc (Suc (Suc (4 * M))))" by simp
  have n: "4 * M + 1 = Suc (4 * M)" "4 * M + 2 = Suc (Suc (4 * M))"
    "4 * M + 3 = Suc (Suc (Suc (4 * M)))" by simp_all
  show ?thesis unfolding e n using assms
    by (simp add: take_Suc_conv_app_nth)
qed

lemma bytes_of_pixels:
  assumes "\<And>p. p < M \<Longrightarrow> rgb d p = replicate 3 (g p) \<and> alpha d p = 255"
    and "4 * M \<le> length d"
  shows "take (4 * M) d = concat (map (\<lambda>p. replicate 3 (g p) @ [255]) [0..<M])"
  using assms
proof (induction M)
  case 0
  show ?case by simp
next
  case (Suc M)
  have IH: "take (4 * M) d = concat (map (\<lambda>p. replicate 3 (g p) @ [255]) [0..<M])"
    using Suc.prems by (intro Suc.IH) simp_all
  have px: "rgb d M = replicate 3 (g M)" "alpha d M = 255" using Suc.prems(1) [of M] by simp_all
  have "[d ! (4 * M), d ! (4 * M + 1), d ! (4 * M + 2), d ! (4 * M + 3)] = replicate 3 (g M) @ [255]"
    using px by (simp add: rgb_def alpha_def)
  then show ?case using take4 [of M d] Suc.prems(2) IH by simp
qed

lemma pixel_coords:
  fixes p n h :: nat
  assumes "p < n * h"
  shows "p div n < h" and "p mod n < n" and "p div n * n + p mod n = p"
proof -
  have n: "0 < n" using assms by (cases n) simp_all
  show "p div n < h" using assms n by (simp add: less_mult_imp_div_less mult.commute)
  show "p mod n < n" using n by simp
  show "p div n * n + p mod n = p" by simp
qed

lemma image_rendered:
  assumes "0 \<le> width" and "4 * (nat width * nat height) \<le> length out"
    and "4 * (nat width * nat height) < 2147483648"
  shows "\<exists>e. depthToSirds depth width height out seed eyeSep obsDist = Some (Inr e) \<and>
             length (e_data e) = length out \<and>
             take (4 * (nat width * nat height)) (e_data e)
               = render depth width height seed eyeSep obsDist \<and>
             drop (4 * (nat width * nat height)) (e_data e)
               = drop (4 * (nat width * nat height)) out"
proof -
  define n where "n = nat width"
  have w: "width = int n" using assms(1) by (simp add: n_def)
  from depthToSirds_done [of n height out, OF assms(2,3) [folded n_def]]
  obtain e where run: "depthToSirds depth (int n) height out seed eyeSep obsDist = Some (Inr e)"
    and d: "imageDone depth n eyeSep obsDist (nat height) (start n out seed) e" by blast
  have len: "length (e_data e) = length out"
    and px: "\<And>y x. y < nat height \<Longrightarrow> x < n \<Longrightarrow>
         rgb (e_data e) (y * n + x)
           = replicate 3 (gray (createSeededRandom seed) (drawIndex depth (int n) eyeSep obsDist y x)) \<and>
         alpha (e_data e) (y * n + x) = 255"
    and fr: "\<And>j. 4 * (nat height * n) \<le> j \<Longrightarrow> e_data e ! j = out ! j"
    using d unfolding imageDone_def start_def by auto
  have pp: "rgb (e_data e) p = replicate 3 (gray (createSeededRandom seed)
                (drawIndex depth (int n) eyeSep obsDist (p div n) (p mod n))) \<and>
            alpha (e_data e) p = 255" if "p < n * nat height" for p
    using px [OF pixel_coords(1,2) [OF that]] pixel_coords(3) [OF that] by simp
  have t: "take (4 * (n * nat height)) (e_data e) = render depth (int n) height seed eyeSep obsDist"
    unfolding render_def
    by (simp only: nat_int, rule bytes_of_pixels [OF pp]) (use assms(2) len in \<open>simp_all add: n_def\<close>)
  have dr: "drop (4 * (n * nat height)) (e_data e) = drop (4 * (n * nat height)) out"
    by (rule nth_equalityI) (use len fr in \<open>simp_all add: mult.commute\<close>)
  have nw: "int n = width" "n = nat width" using w by simp_all
  show ?thesis using run len t dr unfolding nw(1) unfolding nw(2) by blast
qed

lemma snd_next_random: "snd (next_random st) = st + 0x6d2b79f5"
  by (simp add: next_random_def Let_def)

lemma stateAfter_eq: "stateAfter st k = st + of_nat k * 0x6d2b79f5"
  by (induction k) (simp_all add: snd_next_random algebra_simps)

lemmas gray_eval = gray_def stateAfter_eq createSeededRandom_def next_random_def
  clamp8_def floor_rat_div_numeral

lemma unit_interval_nat:
  assumes "m < (4294967296::nat)"
  shows "0 \<le> rat_of_nat m / 4294967296 \<and> rat_of_nat m / 4294967296 < 1"
proof -
  have "rat_of_nat m < 4294967296"
    using assms by (metis of_nat_less_iff of_nat_numeral)
  then show ?thesis by simp
qed

lemma unit_interval:
  fixes w :: "32 word"
  shows "0 \<le> rat_of_nat (unat w) / 4294967296 \<and> rat_of_nat (unat w) / 4294967296 < 1"
proof (rule unit_interval_nat)
  show "unat w < 4294967296"
    using unsigned_less [of w, where ?'a = nat] by simp
qed

lemma next_random_range: "0 \<le> fst (next_random s) \<and> fst (next_random s) < 1"
  unfolding next_random_def Let_def fst_conv by (rule unit_interval)

lemma byte_of_draw:
  assumes "0 \<le> r" "r < (1::rat)"
  shows "0 \<le> \<lfloor>r * 256\<rfloor>" and "\<lfloor>r * 256\<rfloor> \<le> 255"
proof -
  show "0 \<le> \<lfloor>r * 256\<rfloor>" using assms by simp
  have "r * 256 < 256" using assms by simp
  then have "\<lfloor>r * 256\<rfloor> < 256" by (simp add: floor_less_iff)
  then show "\<lfloor>r * 256\<rfloor> \<le> 255" by simp
qed





text \<open>
  Claim C2. The image written by a call is determined by the depth map, the dimensions,
  the seed and the two parameters: whatever the output buffer held before (it is reused
  across calls), two calls with these inputs leave the same bytes in the
  \<open>4 * width * height\<close> bytes of the image; the stream is created inside the call, so
  no state of an earlier call is left to influence it.
\<close>

theorem output_deterministic:
  assumes "0 \<le> width"
    and "4 * (nat width * nat height) \<le> length out1"
    and "4 * (nat width * nat height) \<le> length out2"
    and "4 * (nat width * nat height) < 2147483648"
  shows "\<exists>e1 e2.
     depthToSirds depth width height out1 seed eyeSep obsDist = Some (Inr e1) \<and>
     depthToSirds depth width height out2 seed eyeSep obsDist = Some (Inr e2) \<and>
     take (4 * (nat width * nat height)) (e_data e1)
       = take (4 * (nat width * nat height)) (e_data e2) \<and>
     (length out1 = 4 * (nat width * nat height) \<and> length out2 = 4 * (nat width * nat height)
        \<longrightarrow> e_data e1 = e_data e2)"
proof -
  let ?N = "4 * (nat width * nat height)"
  from image_rendered [OF assms(1,2,4), of depth seed eyeSep obsDist] obtain e1 where
    e1: "depthToSirds depth width height out1 seed eyeSep obsDist = Some (Inr e1)"
      "length (e_data e1) = length out1"
      "take ?N (e_data e1) = render depth width height seed eyeSep obsDist" by blast
  from image_rendered [OF assms(1,3,4), of depth seed eyeSep obsDist] obtain e2 where
    e2: "depthToSirds depth width height out2 seed eyeSep obsDist = Some (Inr e2)"
      "length (e_data e2) = length out2"
      "take ?N (e_data e2) = render depth width height seed eyeSep obsDist" by blast
  have t: "take ?N (e_data e1) = take ?N (e_data e2)" using e1(3) e2(3) by simp
  have "e_data e1 = e_data e2" if "length out1 = ?N" "length out2 = ?N"
    using t that e1(2) e2(2) by simp
  then show ?thesis using e1(1) e2(1) t by blast
qed

lemma render_2x1: "render [0, 0] 2 1 1 4 1 = [160, 160, 160, 255, 0, 0, 0, 255]"
proof -
  have d: "drawIndex [0, 0] 2 4 1 0 0 = 0" "drawIndex [0, 0] 2 4 1 0 (Suc 0) = Suc 0"
    by code_simp+
  have u: "[0..<2] = [0, Suc 0]" by (simp add: upt_rec)
  have g: "gray (createSeededRandom 1) 0 = 160" "gray (createSeededRandom 1) (Suc 0) = 0"
    by (simp_all add: gray_eval)
  show ?thesis
    by (simp add: render_def u d g numeral_3_eq_3)
qed

theorem output_deterministic_witness:
  "(0::int) \<le> 2 \<and> 4 * (nat 2 * nat 1) \<le> length (replicate 8 (0::8 word)) \<and>
   length (replicate 8 (0::8 word)) = 4 * (nat 2 * nat 1) \<and>
   (\<exists>e1 e2.
     depthToSirds [0, 0] 2 1 (replicate 8 0) 1 4 1 = Some (Inr e1) \<and>
     depthToSirds [0, 0] 2 1 (replicate 8 7) 1 4 1 = Some (Inr e2) \<and>
     e_data e1 = e_data e2)"
proof -
  have h: "(0::int) \<le> 2" "4 * (nat 2 * nat 1) \<le> length (replicate 8 (0::8 word))"
    "4 * (nat 2 * nat 1) \<le> length (replicate 8 (7::8 word))"
    "4 * (nat 2 * nat 1) < (2147483648::nat)" by simp_all
  have l: "length (replicate 8 (0::8 word)) = 4 * (nat 2 * nat 1)"
    "length (replicate 8 (7::8 word)) = 4 * (nat 2 * nat 1)" by simp_all
  from output_deterministic [OF h, of "[0, 0]" 1 4 1] l h show ?thesis by blast
qed

text \<open>
  Claim C9. The stream state is the seed modulo \<open>2^32\<close>, so two integer seeds that are
  congruent modulo \<open>2^32\<close> give the same call result, for every other argument.
\<close>

theorem seed_modulo:
  assumes "s1 mod 4294967296 = s2 mod 4294967296"
  shows "uint (createSeededRandom s1) = s1 mod 4294967296 \<and>
         createSeededRandom s1 = createSeededRandom s2 \<and>
         depthToSirds depth width height out s1 eyeSep obsDist
           = depthToSirds depth width height out s2 eyeSep obsDist"
proof -
  have u: "uint (createSeededRandom s1) = s1 mod 4294967296"
    by (simp add: createSeededRandom_def uint_word_of_int take_bit_eq_mod)
  have "take_bit 32 s1 = take_bit 32 s2" using assms by (simp add: take_bit_eq_mod)
  then have c: "createSeededRandom s1 = createSeededRandom s2"
    by (simp add: createSeededRandom_def word_of_int_eq_iff)
  show ?thesis using u c by (simp add: depthToSirds_def)
qed

theorem seed_modulo_witness:
  "(1::int) mod 4294967296 = 4294967297 mod 4294967296 \<and>
   createSeededRandom 1 = createSeededRandom 4294967297 \<and>
   depthToSirds [0, 0] 2 1 (replicate 8 0) 1 4 1
     = depthToSirds [0, 0] 2 1 (replicate 8 0) 4294967297 4 1"
proof -
  have h: "(1::int) mod 4294967296 = 4294967297 mod 4294967296" by simp
  from seed_modulo [OF h] h show ?thesis by blast
qed




lemma colorColumn_oob_neg:
  assumes "shl2 (rowOff + x) < 0"
  shows "e_oob (colorColumn rowOff x e)"
  using assms by (simp add: colorColumn_def Let_def split_beta inb4_def inb_def)

lemma sirdsRow_form:
  assumes "length (e_link e) = nat width"
  shows "\<exists>L b. length L = nat width \<and>
     sirdsRow depth width eyeSep obsDist y e
       = Some (colorRow (int y * width) [0..<nat width] (e\<lparr>e_link := L, e_oob := b\<rparr>))"
proof -
  have r: "resetLink (e_link e, e_oob e) [0..<nat width] = (map int [0..<nat width], e_oob e)"
    using assms by (intro resetLink_full) simp
  have id: "linv (map int [0..<nat width])" "length (map int [0..<nat width]) = nat width"
    by (simp_all add: linv_id)
  from buildLinks_flag [OF id, of depth "int y * width" eyeSep obsDist "[0..<nat width]"]
  obtain L where
    L: "linv L \<and> length L = nat width \<and>
    (\<forall>b. buildLinks depth (int y * width) width eyeSep obsDist [0..<nat width]
            (map int [0..<nat width], b)
           = Some (L, b \<or> (\<exists>x \<in> set [0..<nat width]. \<not> inb depth (int y * width + int x))))" ..
  then have "sirdsRow depth width eyeSep obsDist y e
       = Some (colorRow (int y * width) [0..<nat width]
           (e\<lparr>e_link := L,
              e_oob := (e_oob e \<or> (\<exists>x \<in> set [0..<nat width]. \<not> inb depth (int y * width + int x)))\<rparr>))"
    unfolding sirdsRow_def Let_def r by simp
  then show ?thesis using L by blast
qed






lemma pixel_in_image:
  fixes n h :: nat
  assumes "y < h" "x < n"
  shows "y * n + x < n * h"
proof -
  have "y * n + x < y * n + n" using assms(2) by simp
  also have "\<dots> \<le> n * h" using assms(1) by (rule row_bound)
  finally show ?thesis .
qed

text \<open>
  Claim C10, as amended. When the depth buffer holds \<open>width * height\<close> samples, the
  output buffer \<open>4 * width * height\<close> bytes, and \<open>4 * width * height < 2^31\<close> (so that
  \<^verbatim>\<open><< 2\<close> does not wrap), the call returns with the ghost flag unset: no read or write
  of the depth buffer, the link buffer (the walk of \<open>findRoot\<close> included) or the output
  buffer fell outside its array. Every draw lies in \<open>[0, 1)\<close> and every gray value in
  \<open>[0, 255]\<close>.
\<close>

theorem accesses_in_bounds:
  assumes "0 \<le> width" and "nat width * nat height \<le> length depth"
    and "4 * (nat width * nat height) \<le> length out"
    and "4 * (nat width * nat height) < 2147483648"
  shows "(\<exists>e. depthToSirds depth width height out seed eyeSep obsDist = Some (Inr e) \<and>
              \<not> e_oob e) \<and>
         (\<forall>st. 0 \<le> fst (next_random st) \<and> fst (next_random st) < 1 \<and>
               0 \<le> \<lfloor>fst (next_random st) * 256\<rfloor> \<and> \<lfloor>fst (next_random st) * 256\<rfloor> \<le> 255)"
proof -
  define n where "n = nat width"
  have w: "width = int n" using assms(1) by (simp add: n_def)
  from depthToSirds_done [of n height out, OF assms(3,4) [folded n_def]]
  obtain e where run: "depthToSirds depth (int n) height out seed eyeSep obsDist = Some (Inr e)"
    and d: "imageDone depth n eyeSep obsDist (nat height) (start n out seed) e" by blast
  have ob: "e_oob e = (\<exists>y' < nat height. \<exists>x < n. \<not> inb depth (int (y' * n + x)))"
    using d unfolding imageDone_def start_def by simp
  have "inb depth (int (y' * n + x))" if "y' < nat height" "x < n" for y' x
  proof -
    have "y' * n + x < length depth"
      using pixel_in_image [OF that] assms(2) [folded n_def] by linarith
    then show ?thesis by (simp only: inb_nat)
  qed
  then have "\<not> e_oob e" unfolding ob by blast
  then have a: "\<exists>e. depthToSirds depth width height out seed eyeSep obsDist = Some (Inr e) \<and>
              \<not> e_oob e"
    using run unfolding w by blast
  have b: "0 \<le> fst (next_random st) \<and> fst (next_random st) < 1 \<and>
               0 \<le> \<lfloor>fst (next_random st) * 256\<rfloor> \<and> \<lfloor>fst (next_random st) * 256\<rfloor> \<le> 255" for st
    using next_random_range [of st] byte_of_draw [of "fst (next_random st)"] by simp
  show ?thesis using a b by blast
qed

theorem accesses_in_bounds_witness:
  "(0::int) \<le> 4 \<and> nat 4 * nat 2 \<le> length [0, 0, 255, 0, 0, 0, 0, 0 :: 8 word] \<and>
   4 * (nat 4 * nat 2) \<le> length (replicate 32 (0::8 word)) \<and>
   flagged (depthToSirds [0, 0, 255, 0, 0, 0, 0, 0] 4 2 (replicate 32 0) 1 4 1) = Some False"
proof -
  have h: "(0::int) \<le> 4" "nat 4 * nat 2 \<le> length [0, 0, 255, 0, 0, 0, 0, 0 :: 8 word]"
    "4 * (nat 4 * nat 2) \<le> length (replicate 32 (0::8 word))"
    "4 * (nat 4 * nat 2) < (2147483648::nat)" by simp_all
  from accesses_in_bounds [OF h, of 1 4 1] h show ?thesis
    by (auto simp: flagged_def)
qed

text \<open>
  The two buffer preconditions alone do not suffice: on an image of \<open>2^29 + 1\<close> pixels
  the byte offset of the last pixel, \<^verbatim>\<open>(rowOff + x) << 2\<close>, wraps to \<open>-2^31\<close>, and
  the writes at that offset fall outside the output buffer.
\<close>

theorem accesses_in_bounds_counterexample:
  "(536870913::int) * 1 \<le> int (length (replicate 536870913 (0::8 word))) \<and>
   (536870913::int) * 1 * 4 \<le> int (length (replicate 2147483652 (0::8 word))) \<and>
   shl2 (0 * 536870913 + 536870912) = - 2147483648 \<and>
   flagged (depthToSirds (replicate 536870913 0) 536870913 1 (replicate 2147483652 0) 1 82 520)
     = Some True"
proof -
  let ?depth = "replicate 536870913 (0::8 word)"
  let ?e0 = "\<lparr>e_link = replicate (nat 536870913) 0, e_data = replicate 2147483652 (0::8 word),
              e_state = createSeededRandom 1, e_oob = False\<rparr>"
  have sh: "shl2 (0 * 536870913 + 536870912) = - 2147483648" by (simp add: shl2_def)
  have n: "nat (536870913::int) = Suc 536870912" by simp
  have "length (e_link ?e0) = nat 536870913" by simp
  from sirdsRow_form [OF this, of ?depth 82 520 0] obtain L b where
    s: "sirdsRow ?depth 536870913 82 520 0 ?e0
       = Some (colorRow (int 0 * 536870913) [0..<nat 536870913] (?e0\<lparr>e_link := L, e_oob := b\<rparr>))"
    by blast
  let ?e1 = "colorRow (int 0 * 536870913) [0..<nat 536870913] (?e0\<lparr>e_link := L, e_oob := b\<rparr>)"
  have "?e1 = colorColumn (int 0 * 536870913) (int 536870912)
          (colorRow (int 0 * 536870913) [0..<536870912] (?e0\<lparr>e_link := L, e_oob := b\<rparr>))"
    unfolding n by (rule colorRow_snoc)
  moreover have "shl2 (int 0 * 536870913 + int 536870912) < 0" using sh by simp
  ultimately have ob: "e_oob ?e1" by (simp only: colorColumn_oob_neg)
  have rows: "[0..<nat (1::int)] = [0]" by simp
  have "depthToSirds ?depth 536870913 1 (replicate 2147483652 0) 1 82 520 = Some (Inr ?e1)"
    unfolding depthToSirds_def rows using s by simp
  then have "flagged (depthToSirds ?depth 536870913 1 (replicate 2147483652 0) 1 82 520)
     = Some True"
    using ob by (simp only: flagged_def option.case sum.case)
  then show ?thesis using sh by simp
qed

lemma roots_identity: "k \<le> n \<Longrightarrow> roots (map int [0..<n]) k = k"
  by (induction k) (simp_all add: roots_Suc roots_def)

lemma drawIndex_all_roots:
  assumes "rowLink depth width eyeSep obsDist 0 (nat width) = Some (map int [0..<nat width])"
    and "x < nat width"
  shows "drawIndex depth width eyeSep obsDist 0 x = x"
proof -
  let ?L = "map int [0..<nat width]"
  have f: "finalLink depth width eyeSep obsDist 0 = ?L" by (simp add: finalLink_def assms(1))
  have "rootOf ?L x = x" using assms(2) by (intro rootOf_root linv_id) simp_all
  then show ?thesis
    using assms(2) by (simp add: drawIndex_def f rootsBefore_def roots_identity)
qed

lemma scenario_link: "rowLink scenarioDepth 10 80 400 0 10 = Some (map int [0..<10])"
  by code_simp

lemma scenario_render: "render scenarioDepth 10 1 seed 80 400 = noise seed 10"
proof -
  have d: "drawIndex scenarioDepth 10 80 400 0 p = p" if "p < 10" for p
    using drawIndex_all_roots [of scenarioDepth 10 80 400 p] scenario_link that by simp
  have m: "map (\<lambda>p. replicate 3 (gray (createSeededRandom seed)
                  (drawIndex scenarioDepth 10 80 400 (p div 10) (p mod 10))) @ [255]) [0..<10]
      = map (\<lambda>k. replicate 3 (gray (createSeededRandom seed) k) @ [255]) [0..<10]"
    by (rule map_cong [OF refl]) (simp add: d)
  show ?thesis
    unfolding render_def noise_def by (simp add: m)
qed

text \<open>
  The separation of the near column is \<open>4080 / 131 = 31.145\<dots>\<close>, not \<open>31.18\<dots>\<close>, and its
  half is below \<open>15.58\<close>.
\<close>

theorem scenario_counterexample:
  "separation 255 80 400 = Finite (4080 / 131) \<and> (4080 / 131 :: rat) < 31.15 \<and>
   (4080 / 131 :: rat) * 0.5 < 15.58"
  by (simp add: separation_def jsdiv_def BKDEPTH_def)

text \<open>
  Claim C8, as amended. In the scenario (\<open>width = 10\<close>, \<open>height = 1\<close>, column 5 near,
  \<open>eyeSep = 80\<close>, \<open>obsDist = 400\<close>) the separation of column 5 is \<open>4080 / 131 = 31.145\<dots>\<close>,
  its half \<open>15.57\<dots>\<close>, \<open>leftX = floor (5 - half) = -11\<close>, so the column creates no link;
  every column is its own root, and for every seed the ten output pixels are the first
  ten draws of the stream in order, each as an opaque gray.
\<close>

theorem scenario_row:
  assumes "length out = 40"
  shows "separation 255 80 400 = Finite (4080 / 131) \<and>
         (31.14 :: rat) < 4080 / 131 \<and> (4080 / 131 :: rat) < 31.15 \<and>
         (15.57 :: rat) < 4080 / 131 * 0.5 \<and> (4080 / 131 :: rat) * 0.5 < 15.58 \<and>
         \<lfloor>rat_of_int 5 - 4080 / 131 * 0.5\<rfloor> = - 11 \<and>
         linkPair scenarioDepth 0 10 80 400 5 = None \<and>
         rowLink scenarioDepth 10 80 400 0 10 = Some (map int [0..<10]) \<and>
         written (depthToSirds scenarioDepth 10 1 out seed 80 400) = Some (noise seed 10)"
proof -
  have s: "separation 255 80 400 = Finite (4080 / 131)"
    by (simp add: separation_def jsdiv_def BKDEPTH_def)
  have f: "\<lfloor>rat_of_int 5 - 4080 / 131 * 0.5\<rfloor> = - 11"
  proof -
    have "rat_of_int 5 - 4080 / 131 * 0.5 = - 1385 / 131" by simp
    moreover have "\<lfloor>(- 1385 / 131 :: rat)\<rfloor> = - 11"
      by (simp add: floor_unique)
    ultimately show ?thesis by simp
  qed
  have p: "linkPair scenarioDepth 0 10 80 400 5 = None" by code_simp
  note l = scenario_link
  have h: "(0::int) \<le> 10" "4 * (nat 10 * nat 1) \<le> length out"
    "4 * (nat 10 * nat 1) < (2147483648::nat)" using assms by simp_all
  from image_rendered [OF h, of scenarioDepth seed 80 400] obtain e where
    e: "depthToSirds scenarioDepth 10 1 out seed 80 400 = Some (Inr e)"
      "length (e_data e) = length out"
      "take (4 * (nat 10 * nat 1)) (e_data e) = render scenarioDepth 10 1 seed 80 400"
    by blast
  have "e_data e = noise seed 10"
    using e(2,3) assms by (simp add: scenario_render)
  then have w: "written (depthToSirds scenarioDepth 10 1 out seed 80 400) = Some (noise seed 10)"
    by (simp add: written_def e(1))
  have c: "(31.14 :: rat) < 4080 / 131" "(4080 / 131 :: rat) < 31.15"
    "(15.57 :: rat) < 4080 / 131 * 0.5" "(4080 / 131 :: rat) * 0.5 < 15.58" by simp_all
  show ?thesis using s c f p l w by blast
qed

theorem scenario_row_witness:
  "length (replicate 40 (0::8 word)) = 40 \<and>
   written (depthToSirds scenarioDepth 10 1 (replicate 40 0) 1 80 400) =
     Some [160, 160, 160, 255, 0, 0, 0, 255, 135, 135, 135, 255, 251, 251, 251, 255,
           247, 247, 247, 255, 71, 71, 71, 255, 156, 156, 156, 255, 184, 184, 184, 255,
           109, 109, 109, 255, 254, 254, 254, 255]"
proof -
  have h: "length (replicate 40 (0::8 word)) = 40" by simp
  have u: "[0..<10] = [0, 1, 2, 3, 4, 5, 6, 7, 8, 9]" by (simp add: upt_rec)
  have g: "map (gray (createSeededRandom 1)) [0, 1, 2, 3, 4, 5, 6, 7, 8, 9] =
     [160, 0, 135, 251, 247, 71, 156, 184, 109, 254]"
    by (simp add: gray_eval)
  have "noise 1 10 = concat (map (\<lambda>v. replicate 3 v @ [255])
      (map (gray (createSeededRandom 1)) [0, 1, 2, 3, 4, 5, 6, 7, 8, 9]))"
    unfolding noise_def u by (simp only: map_map comp_def)
  then have n: "noise 1 10 =
     [160, 160, 160, 255, 0, 0, 0, 255, 135, 135, 135, 255, 251, 251, 251, 255,
           247, 247, 247, 255, 71, 71, 71, 255, 156, 156, 156, 255, 184, 184, 184, 255,
           109, 109, 109, 255, 254, 254, 254, 255]"
    unfolding g by (simp add: numeral_3_eq_3)
  from scenario_row [OF h, of 1] show ?thesis unfolding n using h by blast
qed

end
